theory Spec2Isabelle
  imports Complex_Main
begin

section \<open>The durable update queue (flamenco\_worker/upstream\_update\_queue.py)\<close>

text \<open>
  The queue keeps task updates in the SQLite table \<^verbatim>\<open>fworker_queue(url TEXT, payload BLOB)\<close>
  and a drainer POSTs them to the Manager. The model is a shallow embedding of the class
  \<^verbatim>\<open>TaskUpdateQueue\<close>: the object is a record that every method takes and returns, an
  exception is the left injection of a sum, and the Manager is a parameter of the drainer.

  What lies outside the repository is modelled as follows.
  \<^item> SQLite: the table is the list of its rows \<open>(rowid, url, payload)\<close>. \<^verbatim>\<open>INSERT\<close> gives the
    new row the rowid one above the largest rowid in the table (1 in an empty table),
    \<^verbatim>\<open>SELECT ... ORDER BY rowid ASC\<close> sorts by rowid, \<^verbatim>\<open>DELETE ... WHERE rowid=?\<close> drops the rows
    with that rowid. Rowids are the table's key, so a table that SQLite can hold has them
    pairwise distinct; \<open>wf_db\<close> says so of the list (rows kept in ascending rowid).
    Opening the connection (\<^verbatim>\<open>_connect_db\<close>: \<^verbatim>\<open>CREATE TABLE IF NOT EXISTS\<close>, \<^verbatim>\<open>VACUUM\<close>) leaves
    the rows and their order as they are, so the record holds the table only.
  \<^item> pickle: \<^verbatim>\<open>pickle.dumps\<close> wraps a payload into a blob and \<^verbatim>\<open>pickle.loads\<close> unwraps it.
  \<^item> requests: \<^verbatim>\<open>Response.raise_for_status()\<close> raises \<^verbatim>\<open>HTTPError\<close> for the status codes
    400 to 599 and returns for every other status code.
  \<^item> The Manager: \<^verbatim>\<open>manager.post(url, json=payload)\<close> is a function from the Manager's state,
    the url and the payload to what the call does (it raises, or returns a response) and
    the Manager's next state.
  \<^item> asyncio: a flush pass runs alone (it holds \<^verbatim>\<open>_queue_lock\<close>, and no producer enqueues
    while a POST is awaited), so the cursor of \<^verbatim>\<open>_queue()\<close> yields the rows that were in the
    table when the pass started; the pass deletes only rows the cursor has yielded already.
    \<^verbatim>\<open>asyncio.sleep\<close> is recorded in the trace of events.
  The trace \<open>events\<close> is a ghost field: it records, in order, every POST the drainer made
  with its outcome and every sleep. Log output is not modelled.
\<close>

subsection \<open>Data\<close>

datatype 'p blob = Pickled 'p

definition pickle_dumps :: "'p \<Rightarrow> 'p blob" where
  "pickle_dumps payload = Pickled payload"

fun pickle_loads :: "'p blob \<Rightarrow> 'p" where
  "pickle_loads (Pickled payload) = payload"

type_synonym 'p row = "int \<times> string \<times> 'p blob"

datatype response = Response (status_code: int) (response_text: string)

datatype error = ConnectionError | HTTPError int | OtherException

type_synonym ('m, 'p) post_fn = "'m \<Rightarrow> string \<Rightarrow> 'p \<Rightarrow> (error + response) \<times> 'm"

datatype 'p event = Posted string 'p "error + response" | Slept rat

definition BACKOFF_TIME :: rat where
  "BACKOFF_TIME = 5"

record ('m, 'p) TaskUpdateQueue =
  manager :: 'm
  backoff_time :: rat
  stuff_queued :: bool
  db :: "'p row list"
  events :: "'p event list"

text \<open>
  The attrs-generated constructor: \<^verbatim>\<open>backoff_time\<close> defaults to \<^verbatim>\<open>BACKOFF_TIME\<close>, the event
  \<^verbatim>\<open>_stuff_queued\<close> starts unset. \<open>table\<close> is what the file \<^verbatim>\<open>db_fname\<close> holds.
\<close>

definition new_TaskUpdateQueue :: "'m \<Rightarrow> 'p row list \<Rightarrow> ('m, 'p) TaskUpdateQueue" where
  "new_TaskUpdateQueue m table =
     \<lparr>manager = m, backoff_time = BACKOFF_TIME, stuff_queued = False, db = table, events = []\<rparr>"

subsection \<open>The table\<close>

definition wf_db :: "'p row list \<Rightarrow> bool" where
  "wf_db table = sorted_wrt (<) (map fst table)"

fun next_rowid :: "'p row list \<Rightarrow> int" where
  "next_rowid [] = 1"
| "next_rowid (r # rs) = Max (set (map fst (r # rs))) + 1"

definition sql_insert :: "string \<Rightarrow> 'p blob \<Rightarrow> 'p row list \<Rightarrow> 'p row list" where
  "sql_insert url pickled table = table @ [(next_rowid table, url, pickled)]"

definition sql_select_ordered :: "'p row list \<Rightarrow> 'p row list" where
  "sql_select_ordered table = sort_key fst table"

definition sql_delete :: "int \<Rightarrow> 'p row list \<Rightarrow> 'p row list" where
  "sql_delete rowid table = filter (\<lambda>r. fst r \<noteq> rowid) table"

subsection \<open>The methods\<close>

text \<open>\<^verbatim>\<open>queue(url, payload)\<close>: pickle, insert, commit, set the event.\<close>

definition queue :: "string \<Rightarrow> 'p \<Rightarrow> ('m, 'p) TaskUpdateQueue \<Rightarrow> ('m, 'p) TaskUpdateQueue" where
  "queue url payload self =
     (let pickled = pickle_dumps payload
      in self\<lparr>db := sql_insert url pickled (db self), stuff_queued := True\<rparr>)"

text \<open>\<^verbatim>\<open>_queue()\<close>: the rows by ascending rowid, each payload unpickled.\<close>

fun unpickle_row :: "'p row \<Rightarrow> int \<times> string \<times> 'p" where
  "unpickle_row (rowid, url, pickled) = (rowid, url, pickle_loads pickled)"

definition underscore_queue :: "('m, 'p) TaskUpdateQueue \<Rightarrow> (int \<times> string \<times> 'p) list" where
  "underscore_queue self = map unpickle_row (sql_select_ordered (db self))"

definition queue_size :: "('m, 'p) TaskUpdateQueue \<Rightarrow> nat" where
  "queue_size self = length (db self)"

definition underscore_unqueue :: "int \<Rightarrow> ('m, 'p) TaskUpdateQueue \<Rightarrow> ('m, 'p) TaskUpdateQueue" where
  "underscore_unqueue rowid self = self\<lparr>db := sql_delete rowid (db self)\<rparr>"

definition raise_for_status :: "response \<Rightarrow> error + unit" where
  "raise_for_status resp =
     (if 400 \<le> status_code resp \<and> status_code resp < 600
      then Inl (HTTPError (status_code resp)) else Inr ())"

text \<open>
  The body of the \<^verbatim>\<open>for\<close> loop of \<^verbatim>\<open>flush\<close>, over the rows that \<^verbatim>\<open>_queue()\<close> yields. The locals
  \<^verbatim>\<open>queue_is_empty\<close> and \<^verbatim>\<open>handled\<close> are arguments; the loop ends with their values (the rows
  ran out, or the \<^verbatim>\<open>break\<close>) or with the exception that leaves \<^verbatim>\<open>flush\<close>.
\<close>

fun flush_loop ::
  "('m, 'p) post_fn \<Rightarrow> (int \<times> string \<times> 'p) list \<Rightarrow> bool \<Rightarrow> nat \<Rightarrow> ('m, 'p) TaskUpdateQueue
   \<Rightarrow> (error + bool \<times> nat) \<times> ('m, 'p) TaskUpdateQueue" where
  "flush_loop post [] queue_is_empty handled self = (Inr (queue_is_empty, handled), self)"
| "flush_loop post ((rowid, url, payload) # rest) queue_is_empty handled self =
     (let queue_is_empty = False;
          result = post (manager self) url payload;
          self = self\<lparr>manager := snd result,
                      events := events self @ [Posted url payload (fst result)]\<rparr>
      in case fst result of
           Inl e \<Rightarrow> (Inl e, self)
         | Inr resp \<Rightarrow>
             (case (if status_code resp = 409 then Inr () else raise_for_status resp) of
                Inl e \<Rightarrow> (Inl e, self)
              | Inr _ \<Rightarrow>
                  (let self = underscore_unqueue rowid self;
                       handled = handled + 1
                   in if handled > 1000 then (Inr (queue_is_empty, handled), self)
                      else flush_loop post rest queue_is_empty handled self)))"

text \<open>
  \<^verbatim>\<open>flush\<close>: one drain pass. It returns \<^verbatim>\<open>queue_is_empty\<close>, or raises what a POST or
  \<^verbatim>\<open>raise_for_status\<close> raised; the event is cleared only on the path that returns, under
  \<^verbatim>\<open>if queue_is_empty\<close>. The three readings of \<^verbatim>\<open>queue_size()\<close> feed log messages only.
\<close>

definition flush ::
  "('m, 'p) post_fn \<Rightarrow> ('m, 'p) TaskUpdateQueue \<Rightarrow> (error + bool) \<times> ('m, 'p) TaskUpdateQueue" where
  "flush post self =
     (case flush_loop post (underscore_queue self) True 0 self of
        (Inl e, self') \<Rightarrow> (Inl e, self')
      | (Inr (queue_is_empty, handled), self') \<Rightarrow>
          (Inr queue_is_empty,
           if queue_is_empty then self'\<lparr>stuff_queued := False\<rparr> else self'))"

definition asyncio_sleep :: "rat \<Rightarrow> ('m, 'p) TaskUpdateQueue \<Rightarrow> ('m, 'p) TaskUpdateQueue" where
  "asyncio_sleep delay self = self\<lparr>events := events self @ [Slept delay]\<rparr>"

text \<open>\<^verbatim>\<open>flush_and_catch\<close>: every exception of the pass is caught, and each handler sleeps.\<close>

definition flush_and_catch ::
  "('m, 'p) post_fn \<Rightarrow> ('m, 'p) TaskUpdateQueue \<Rightarrow> ('m, 'p) TaskUpdateQueue" where
  "flush_and_catch post self =
     (case flush post self of
        (Inr _, self') \<Rightarrow> self'
      | (Inl ConnectionError, self') \<Rightarrow> asyncio_sleep (backoff_time self') self'
      | (Inl (HTTPError _), self') \<Rightarrow> asyncio_sleep (backoff_time self') self'
      | (Inl OtherException, self') \<Rightarrow> asyncio_sleep (backoff_time self') self')"

subsection \<open>Vocabulary of the statements\<close>

text \<open>
  A POST fails when the drainer leaves the pass through an exception at it: the call itself
  raised, or it returned a status other than 409 that \<^verbatim>\<open>raise_for_status\<close> rejects. The
  exception that leaves \<^verbatim>\<open>flush\<close> is then \<open>error_of\<close> the outcome.
\<close>

definition post_fails :: "error + response \<Rightarrow> bool" where
  "post_fails outcome =
     (case outcome of
        Inl e \<Rightarrow> True
      | Inr resp \<Rightarrow> status_code resp \<noteq> 409 \<and> 400 \<le> status_code resp \<and> status_code resp < 600)"

definition error_of :: "error + response \<Rightarrow> error" where
  "error_of outcome = (case outcome of Inl e \<Rightarrow> e | Inr resp \<Rightarrow> HTTPError (status_code resp))"

text \<open>The POST events of the rows \<open>rows\<close>, in order, with the outcomes \<open>outcomes\<close>.\<close>

definition post_events :: "'p row list \<Rightarrow> (error + response) list \<Rightarrow> 'p event list" where
  "post_events rows outcomes =
     map (\<lambda>(r, outcome). Posted (fst (snd r)) (pickle_loads (snd (snd r))) outcome) (zip rows outcomes)"

text \<open>
  What the loop does with the rows \<open>rows\<close> when the POSTs it makes have the outcomes \<open>outs\<close>:
  it ends normally with the locals \<open>(q', h')\<close> after POSTing and deleting \<open>length outs\<close> rows,
  having run out of rows or passed the cap; or it raises at the last POST, whose row and
  all later rows are still in the table \<open>rows'\<close>.
\<close>

definition pass_shape ::
  "'p row list \<Rightarrow> bool \<Rightarrow> nat \<Rightarrow> (error + bool \<times> nat) \<Rightarrow> 'p row list \<Rightarrow> (error + response) list \<Rightarrow> bool" where
  "pass_shape rows q h res rows' outs =
     (length outs \<le> length rows \<and>
      (case res of
         Inr (q', h') \<Rightarrow>
           q' = (q \<and> rows = []) \<and> h' = h + length outs \<and> list_all (\<lambda>out. \<not> post_fails out) outs \<and>
           rows' = drop (length outs) rows \<and> (length outs = length rows \<or> 1000 < h')
       | Inl e \<Rightarrow>
           outs \<noteq> [] \<and> list_all (\<lambda>out. \<not> post_fails out) (butlast outs) \<and> post_fails (last outs) \<and>
           e = error_of (last outs) \<and> rows' = drop (length outs - 1) rows))"

definition pass_outcomes ::
  "'p row list \<Rightarrow> (error + bool) \<Rightarrow> 'p row list \<Rightarrow> (error + response) list \<Rightarrow> bool" where
  "pass_outcomes rows res rows' outs =
     (length outs \<le> length rows \<and>
      (case res of
         Inr b \<Rightarrow>
           b = (rows = []) \<and> list_all (\<lambda>out. \<not> post_fails out) outs \<and>
           rows' = drop (length outs) rows \<and> (length outs = length rows \<or> 1000 < length outs)
       | Inl e \<Rightarrow>
           outs \<noteq> [] \<and> list_all (\<lambda>out. \<not> post_fails out) (butlast outs) \<and> post_fails (last outs) \<and>
           e = error_of (last outs) \<and> rows' = drop (length outs - 1) rows))"

text \<open>A response with status 409: the Manager says the task is no longer this worker's.\<close>

definition is_conflict :: "error + response \<Rightarrow> bool" where
  "is_conflict outcome = (case outcome of Inl e \<Rightarrow> False | Inr resp \<Rightarrow> status_code resp = 409)"

text \<open>
  The update a row carries, as \<^verbatim>\<open>_queue()\<close> yields it; the updates POSTed, in order, by a
  trace; and those of them whose POST completed without an exception.
\<close>

definition update_of_row :: "'p row \<Rightarrow> string \<times> 'p" where
  "update_of_row r = (fst (snd r), pickle_loads (snd (snd r)))"

fun posted :: "'p event list \<Rightarrow> (string \<times> 'p) list" where
  "posted [] = []"
| "posted (Posted url payload outcome # evs) = (url, payload) # posted evs"
| "posted (Slept delay # evs) = posted evs"

fun delivered :: "'p event list \<Rightarrow> (string \<times> 'p) list" where
  "delivered [] = []"
| "delivered (Posted url payload outcome # evs) =
     (if post_fails outcome then delivered evs else (url, payload) # delivered evs)"
| "delivered (Slept delay # evs) = delivered evs"

definition kept_or_delivered :: "string \<Rightarrow> 'p \<Rightarrow> ('m, 'p) TaskUpdateQueue \<Rightarrow> bool" where
  "kept_or_delivered url payload self =
     ((url, payload) \<in> set (map update_of_row (db self)) \<or>
      (url, payload) \<in> set (delivered (events self)))"

subsection \<open>Sequences of calls\<close>

text \<open>
  \<open>queue_all\<close> is a producer that calls \<^verbatim>\<open>queue\<close> for each update in turn. \<open>run\<close> is a life of
  the queue object: producers call \<^verbatim>\<open>queue\<close>, and the loop of \<^verbatim>\<open>work\<close> calls
  \<^verbatim>\<open>flush_and_catch\<close>, in any interleaving of whole calls.
\<close>

fun queue_all :: "(string \<times> 'p) list \<Rightarrow> ('m, 'p) TaskUpdateQueue \<Rightarrow> ('m, 'p) TaskUpdateQueue" where
  "queue_all [] self = self"
| "queue_all ((url, payload) # updates) self = queue_all updates (queue url payload self)"

datatype 'p call = Queue string 'p | Work

fun run :: "('m, 'p) post_fn \<Rightarrow> 'p call list \<Rightarrow> ('m, 'p) TaskUpdateQueue \<Rightarrow> ('m, 'p) TaskUpdateQueue" where
  "run post [] self = self"
| "run post (Queue url payload # calls) self = run post calls (queue url payload self)"
| "run post (Work # calls) self = run post calls (flush_and_catch post self)"

subsection \<open>Managers and stores of the examples\<close>

text \<open>
  Two Managers in the manner of the mocks of the test suite: one answers every POST with
  the same status code, one raises the same exception at every POST. \<open>example_queue n\<close> is
  a queue whose table holds \<open>n\<close> rows, numbered from 1, with the event set as \<^verbatim>\<open>work\<close> sets it.
\<close>

definition always_respond :: "int \<Rightarrow> ('m, 'p) post_fn" where
  "always_respond code m url payload = (Inr (Response code []), m)"

definition always_raise :: "error \<Rightarrow> ('m, 'p) post_fn" where
  "always_raise e m url payload = (Inl e, m)"

definition numbered_rows :: "nat \<Rightarrow> string row list" where
  "numbered_rows n = map (\<lambda>i. (int i, ''/tasks/1/update'', Pickled ''log'')) [1..<Suc n]"

definition example_queue :: "nat \<Rightarrow> (unit, string) TaskUpdateQueue" where
  "example_queue n = (new_TaskUpdateQueue () (numbered_rows n))\<lparr>stuff_queued := True\<rparr>"

section \<open>The may-I-run poller\<close>

text \<open>
  Modelled from the spec: \<^verbatim>\<open>MayIRun.may_i_run\<close> (flamenco\_worker/may\_i\_run.py is not among
  the sources; only its test is). The poller issues \<^verbatim>\<open>GET /may-i-run/<task_id>\<close>; the response
  has the shape \<^verbatim>\<open>{may_keep_running: bool, reason?: string, status_requested?: string}\<close>. With
  \<^verbatim>\<open>may_keep_running\<close> true there is no action; with it false and a requested status the
  poller calls \<^verbatim>\<open>worker.change_status\<close> with that status; the call returns whether the task
  may keep running. A JSON string is the list of its Unicode code points, so that a
  character outside ASCII is one element. The result pairs the returned value with the calls
  made on the worker.
\<close>

type_synonym unicode = "nat list"

record may_i_run_response =
  may_keep_running :: bool
  reason :: "unicode option"
  status_requested :: "unicode option"

datatype worker_call = change_status unicode | stop_current_task

definition may_i_run :: "(string \<Rightarrow> may_i_run_response) \<Rightarrow> string \<Rightarrow> bool \<times> worker_call list" where
  "may_i_run get task_id =
     (let resp = get (''/may-i-run/'' @ task_id)
      in if may_keep_running resp then (True, [])
         else (case status_requested resp of
                 Some s \<Rightarrow> (False, [change_status s])
               | None \<Rightarrow> (False, [])))"

text \<open>
  The mock of the test: every GET returns the given JSON document. \<open>switching\<close> is the
  document of \<^verbatim>\<open>test_go_asleep\<close>; the requested status is a Cyrillic name of six letters,
  U+0421 U+0435 U+0440 U+0433 U+0435 U+0439.
\<close>

definition mocked_get :: "may_i_run_response \<Rightarrow> string \<Rightarrow> may_i_run_response" where
  "mocked_get json_response path = json_response"

definition sergey :: unicode where
  "sergey = [1057, 1077, 1088, 1075, 1077, 1081]"

definition switching :: may_i_run_response where
  "switching = \<lparr>may_keep_running = False, reason = Some (map of_char ''switching status''),
                 status_requested = Some sergey\<rparr>"

section \<open>The render-audio command\<close>

text \<open>
  Modelled from the spec: \<^verbatim>\<open>BlenderRenderAudioCommand\<close> (flamenco\_worker/commands.py is not
  among the sources; only its test is). The runner composes the argv from the settings: the
  words of \<^verbatim>\<open>blender_cmd\<close>, then \<^verbatim>\<open>--enable-autoexec -noaudio --background\<close>, the blend file,
  \<^verbatim>\<open>--python-exit-code 47\<close> and \<^verbatim>\<open>--python-expr\<close> with a script that sets the frame range, mixes
  the sound down to \<^verbatim>\<open>render_output\<close> as FLAC with accuracy 128 and quits. The child is spawned
  with stdin closed and with stdout and stderr merged into one pipe.

  \<open>split_words\<close> splits a command line as a POSIX shell does, as far as the scenario needs:
  blanks separate words, single and double quotes group characters and are dropped, and
  an unclosed quote is an error (\<open>None\<close>).
\<close>

datatype quoting = Unquoted | DoubleQuoted | SingleQuoted

fun split_words :: "quoting \<Rightarrow> string option \<Rightarrow> string \<Rightarrow> string list option" where
  "split_words Unquoted word [] = Some (case word of None \<Rightarrow> [] | Some w \<Rightarrow> [w])"
| "split_words q word [] = None"
| "split_words Unquoted word (c # cs) =
     (if c = CHR '' '' then
        (case word of
           None \<Rightarrow> split_words Unquoted None cs
         | Some w \<Rightarrow> map_option (\<lambda>ws. w # ws) (split_words Unquoted None cs))
      else if c = CHR 0x22 then split_words DoubleQuoted (Some (case word of None \<Rightarrow> [] | Some w \<Rightarrow> w)) cs
      else if c = CHR 0x27 then split_words SingleQuoted (Some (case word of None \<Rightarrow> [] | Some w \<Rightarrow> w)) cs
      else split_words Unquoted (Some ((case word of None \<Rightarrow> [] | Some w \<Rightarrow> w) @ [c])) cs)"
| "split_words DoubleQuoted word (c # cs) =
     (if c = CHR 0x22 then split_words Unquoted word cs
      else split_words DoubleQuoted (Some ((case word of None \<Rightarrow> [] | Some w \<Rightarrow> w) @ [c])) cs)"
| "split_words SingleQuoted word (c # cs) =
     (if c = CHR 0x27 then split_words Unquoted word cs
      else split_words SingleQuoted (Some ((case word of None \<Rightarrow> [] | Some w \<Rightarrow> w) @ [c])) cs)"

definition shlex_split :: "string \<Rightarrow> string list option" where
  "shlex_split s = split_words Unquoted None s"

fun decimal :: "nat \<Rightarrow> string" where
  "decimal n = (if n < 10 then [''0123456789'' ! n] else decimal (n div 10) @ [''0123456789'' ! (n mod 10)])"

definition str_of_int :: "int \<Rightarrow> string" where
  "str_of_int i = (if i < 0 then ''-'' @ decimal (nat (- i)) else decimal (nat i))"

definition repr_str :: "string \<Rightarrow> string" where
  "repr_str s = [CHR 0x27] @ s @ [CHR 0x27]"

fun join_lines :: "string list \<Rightarrow> string" where
  "join_lines [] = []"
| "join_lines [l] = l"
| "join_lines (l # ls) = l @ [CHR 0x0A] @ join_lines ls"

record render_audio_settings =
  blender_cmd :: string
  frame_start :: int
  frame_end :: int
  filepath :: string
  render_output :: string

datatype stream = DEVNULL | PIPE | STDOUT

record subprocess_exec =
  argv :: "string list"
  stdin :: stream
  stdout :: stream
  stderr :: stream

definition audio_script :: "render_audio_settings \<Rightarrow> string" where
  "audio_script settings = join_lines
     [''import bpy'',
      ''bpy.context.scene.frame_start = '' @ str_of_int (frame_start settings),
      ''bpy.context.scene.frame_end = '' @ str_of_int (frame_end settings),
      ''bpy.ops.sound.mixdown(filepath='' @ repr_str (render_output settings) @
        '', codec='' @ repr_str ''FLAC'' @ '', container='' @ repr_str ''FLAC'' @ '', accuracy=128)'',
      ''bpy.ops.wm.quit_blender()'']"

definition render_audio_exec :: "render_audio_settings \<Rightarrow> subprocess_exec option" where
  "render_audio_exec settings =
     map_option (\<lambda>cmd.
       \<lparr>argv = cmd @ [''--enable-autoexec'', ''-noaudio'', ''--background'', filepath settings,
                       ''--python-exit-code'', ''47'', ''--python-expr'', audio_script settings],
        stdin = DEVNULL, stdout = PIPE, stderr = STDOUT\<rparr>)
       (shlex_split (blender_cmd settings))"

definition scenario_settings :: render_audio_settings where
  "scenario_settings =
     \<lparr>blender_cmd = ''/usr/bin/blender --with --cli='' @ [CHR 0x22] @ ''args for CLI'' @ [CHR 0x22],
      frame_start = 1, frame_end = 47, filepath = ''/x/f.blend'',
      render_output = ''/tmp/output.flac''\<rparr>"

section \<open>Properties of the update queue\<close>

subsection \<open>The table and the loop\<close>

text \<open>
  \<open>wf_db\<close> is an invariant of the table: it holds of the empty table and is kept by
  \<^verbatim>\<open>INSERT\<close> (\<open>wf_db_insert\<close>), by \<^verbatim>\<open>queue\<close> (\<open>wf_db_queue\<close>) and by a drain pass
  (\<open>wf_db_flush_and_catch\<close>).
\<close>

lemma wf_db_empty: "wf_db []"
  by (simp add: wf_db_def)

lemma wf_db_Cons: "wf_db (r # rs) \<Longrightarrow> wf_db rs"
  by (simp add: wf_db_def)

lemma wf_db_delete_head: "wf_db (r # rs) \<Longrightarrow> sql_delete (fst r) (r # rs) = rs"
  by (auto simp: wf_db_def sql_delete_def filter_id_conv)

lemma wf_db_select: "wf_db table \<Longrightarrow> sql_select_ordered table = table"
  unfolding wf_db_def sql_select_ordered_def
  by (simp add: sort_key_id_if_sorted strict_sorted_iff)

text \<open>\<open>post_fails\<close> in terms of the calls the loop makes.\<close>

lemma post_fails_eq:
  "post_fails (Inl e)"
  "post_fails (Inr resp) = (status_code resp \<noteq> 409 \<and> raise_for_status resp \<noteq> Inr ())"
  by (simp_all add: post_fails_def raise_for_status_def)

lemma post_events_Nil [simp]: "post_events rows [] = []" "post_events [] outs = []"
  by (simp_all add: post_events_def)

lemma post_events_Cons [simp]:
  "post_events (r # rs) (out # outs) =
     Posted (fst (snd r)) (pickle_loads (snd (snd r))) out # post_events rs outs"
  by (simp add: post_events_def)

lemma flush_loop_fail:
  "post_fails (fst (P (manager st) url payload)) \<Longrightarrow>
   flush_loop P ((rowid, url, payload) # rest) q h st =
     (Inl (error_of (fst (P (manager st) url payload))),
      st\<lparr>manager := snd (P (manager st) url payload),
         events := events st @ [Posted url payload (fst (P (manager st) url payload))]\<rparr>)"
  by (auto simp: post_fails_def error_of_def raise_for_status_def Let_def split: sum.splits)

lemma flush_loop_ok:
  "\<not> post_fails (fst (P (manager st) url payload)) \<Longrightarrow>
   flush_loop P ((rowid, url, payload) # rest) q h st =
     (let st1 = st\<lparr>manager := snd (P (manager st) url payload),
                   events := events st @ [Posted url payload (fst (P (manager st) url payload))],
                   db := sql_delete rowid (db st)\<rparr>
      in if 1000 < h + 1 then (Inr (False, h + 1), st1)
         else flush_loop P rest False (h + 1) st1)"
  by (auto simp: post_fails_def raise_for_status_def underscore_unqueue_def Let_def split: sum.splits)

declare flush_loop.simps(2) [simp del]

lemma flush_loop_shape_aux:
  "wf_db rows \<Longrightarrow> db st = rows \<Longrightarrow>
   flush_loop P (map unpickle_row rows) q h st = (res, st') \<Longrightarrow>
   \<exists>outs. events st' = events st @ post_events rows outs \<and>
          stuff_queued st' = stuff_queued st \<and> backoff_time st' = backoff_time st \<and>
          pass_shape rows q h res (db st') outs"
proof (induction rows arbitrary: st q h res st')
  case Nil
  then have "res = Inr (q, h)" "st' = st" by auto
  then have "events st' = events st @ post_events [] [] \<and>
          stuff_queued st' = stuff_queued st \<and> backoff_time st' = backoff_time st \<and>
          pass_shape [] q h res (db st') []"
    using Nil by (simp add: pass_shape_def)
  then show ?case by blast
next
  case (Cons r rs)
  obtain rowid url b where r: "r = (rowid, url, b)" by (cases r) auto
  define out where "out = fst (P (manager st) url (pickle_loads b))"
  define m' where "m' = snd (P (manager st) url (pickle_loads b))"
  have loop: "flush_loop P ((rowid, url, pickle_loads b) # map unpickle_row rs) q h st = (res, st')"
    using Cons.prems(3) r by simp
  show ?case
  proof (cases "post_fails out")
    case True
    from loop True have res: "res = Inl (error_of out)"
      and st': "st' = st\<lparr>manager := m', events := events st @ [Posted url (pickle_loads b) out]\<rparr>"
      unfolding out_def m'_def by (simp_all add: flush_loop_fail)
    have "events st' = events st @ post_events (r # rs) [out] \<and>
          stuff_queued st' = stuff_queued st \<and> backoff_time st' = backoff_time st \<and>
          pass_shape (r # rs) q h res (db st') [out]"
      using True res st' r Cons.prems(2) by (simp add: pass_shape_def)
    then show ?thesis by blast
  next
    case False
    define st1 where "st1 = st\<lparr>manager := m',
         events := events st @ [Posted url (pickle_loads b) out], db := sql_delete rowid (db st)\<rparr>"
    have db1: "db st1 = rs"
      using wf_db_delete_head [OF Cons.prems(1)] Cons.prems(2) r by (simp add: st1_def)
    from loop False have step:
      "(if 1000 < h + 1 then (Inr (False, h + 1), st1) else flush_loop P (map unpickle_row rs) False (h + 1) st1)
         = (res, st')"
      unfolding out_def m'_def st1_def by (simp add: flush_loop_ok Let_def)
    show ?thesis
    proof (cases "1000 < h + 1")
      case True
      with step have res: "res = Inr (False, h + 1)" and st': "st' = st1" by simp_all
      have "events st' = events st @ post_events (r # rs) [out] \<and>
          stuff_queued st' = stuff_queued st \<and> backoff_time st' = backoff_time st \<and>
          pass_shape (r # rs) q h res (db st') [out]"
        using True False res st' db1 r by (simp add: pass_shape_def st1_def)
      then show ?thesis by blast
    next
      case h: False
      with step have rec: "flush_loop P (map unpickle_row rs) False (h + 1) st1 = (res, st')" by simp
      from Cons.IH [OF wf_db_Cons [OF Cons.prems(1)] db1 rec]
      obtain outs where ev: "events st' = events st1 @ post_events rs outs"
        and sq: "stuff_queued st' = stuff_queued st1" and bt: "backoff_time st' = backoff_time st1"
        and sh: "pass_shape rs False (h + 1) res (db st') outs" by blast
      have "pass_shape (r # rs) q h res (db st') (out # outs)"
        using sh False unfolding pass_shape_def
        by (cases res) (auto simp: drop_Cons' split: prod.splits)
      moreover have "events st' = events st @ post_events (r # rs) (out # outs)"
        using ev r by (simp add: st1_def)
      ultimately have "events st' = events st @ post_events (r # rs) (out # outs) \<and>
          stuff_queued st' = stuff_queued st \<and> backoff_time st' = backoff_time st \<and>
          pass_shape (r # rs) q h res (db st') (out # outs)"
        using sq bt by (simp add: st1_def)
      then show ?thesis by blast
    qed
  qed
qed

lemma flush_loop_flags:
  "flush_loop P rows q h st = (res, st') \<Longrightarrow>
   stuff_queued st' = stuff_queued st \<and> backoff_time st' = backoff_time st \<and>
   (case res of Inr (q', h') \<Rightarrow> q' = (q \<and> rows = []) | Inl e \<Rightarrow> rows \<noteq> [])"
proof (induction rows arbitrary: st q h)
  case Nil
  then show ?case by auto
next
  case (Cons r rs)
  obtain rowid url payload where r: "r = (rowid, url, payload)" by (cases r) auto
  show ?case
  proof (cases "post_fails (fst (P (manager st) url payload))")
    case True
    with Cons.prems r show ?thesis by (auto simp: flush_loop_fail)
  next
    case False
    show ?thesis
    proof (cases "1000 < h + 1")
      case True
      with False Cons.prems r show ?thesis by (auto simp: flush_loop_ok Let_def)
    next
      case h: False
      with False Cons.prems r have
        "flush_loop P rs False (h + 1) (st\<lparr>manager := snd (P (manager st) url payload),
            events := events st @ [Posted url payload (fst (P (manager st) url payload))],
            db := sql_delete rowid (db st)\<rparr>) = (res, st')"
        by (simp add: flush_loop_ok Let_def)
      from Cons.IH [OF this] show ?thesis by (cases res) auto
    qed
  qed
qed

lemma underscore_queue_wf: "wf_db (db st) \<Longrightarrow> underscore_queue st = map unpickle_row (db st)"
  by (simp add: underscore_queue_def wf_db_select)

lemma underscore_queue_Nil: "(underscore_queue st = []) = (db st = [])"
proof -
  have "length (underscore_queue st) = length (db st)"
    by (simp add: underscore_queue_def sql_select_ordered_def)
  then show ?thesis by (metis length_0_conv)
qed

lemma flush_shape:
  assumes "wf_db (db st)" and "flush P st = (res, st')"
  shows "\<exists>outs. events st' = events st @ post_events (db st) outs \<and>
           backoff_time st' = backoff_time st \<and> pass_outcomes (db st) res (db st') outs"
proof -
  obtain lres st1 where loop: "flush_loop P (map unpickle_row (db st)) True 0 st = (lres, st1)"
    by (cases "flush_loop P (map unpickle_row (db st)) True 0 st") auto
  from flush_loop_shape_aux [OF assms(1) refl loop]
  obtain outs where ev: "events st1 = events st @ post_events (db st) outs"
    and bt: "backoff_time st1 = backoff_time st"
    and sh: "pass_shape (db st) True 0 lres (db st1) outs" by blast
  show ?thesis
  proof (cases lres)
    case (Inl e)
    with loop assms have "res = Inl e" "st' = st1"
      by (simp_all add: flush_def underscore_queue_wf)
    with ev bt sh Inl show ?thesis
      by (auto simp: pass_shape_def pass_outcomes_def)
  next
    case (Inr qh)
    obtain q' h' where qh: "qh = (q', h')" by (cases qh) auto
    with Inr loop assms have res: "res = Inr q'"
      and st': "st' = (if q' then st1\<lparr>stuff_queued := False\<rparr> else st1)"
      by (simp_all add: flush_def underscore_queue_wf)
    have "events st' = events st @ post_events (db st) outs \<and>
           backoff_time st' = backoff_time st \<and> pass_outcomes (db st) res (db st') outs"
      using ev bt sh Inr qh res st' by (auto simp: pass_shape_def pass_outcomes_def)
    then show ?thesis by blast
  qed
qed

lemma flush_flags:
  "stuff_queued (snd (flush P st)) = (if db st = [] then False else stuff_queued st) \<and>
   (case fst (flush P st) of Inr b \<Rightarrow> b = (db st = []) | Inl e \<Rightarrow> db st \<noteq> [])"
proof -
  obtain lres st1 where loop: "flush_loop P (underscore_queue st) True 0 st = (lres, st1)"
    by (cases "flush_loop P (underscore_queue st) True 0 st") auto
  from flush_loop_flags [OF loop] loop show ?thesis
    by (cases lres) (auto simp: flush_def underscore_queue_Nil)
qed

lemma flush_raised_rows_left:
  assumes "wf_db (db st)" and "fst (flush P st) = Inl e"
  shows "db (snd (flush P st)) \<noteq> []"
proof -
  have f: "flush P st = (Inl e, snd (flush P st))"
    using assms(2) by (metis prod.collapse)
  from flush_shape [OF assms(1) f] obtain outs where
    "pass_outcomes (db st) (Inl e) (db (snd (flush P st))) outs" by blast
  then have "outs \<noteq> []" "length outs \<le> length (db st)"
    "db (snd (flush P st)) = drop (length outs - 1) (db st)"
    by (simp_all add: pass_outcomes_def)
  then show ?thesis by (cases outs) auto
qed

subsection \<open>The example stores\<close>

lemma numbered_rows_0: "numbered_rows 0 = []"
  by (simp add: numbered_rows_def)

lemma numbered_rows_1: "numbered_rows (Suc 0) = [(1, ''/tasks/1/update'', Pickled ''log'')]"
  by (simp add: numbered_rows_def)

lemma numbered_rows_2:
  "numbered_rows 2 = [(1, ''/tasks/1/update'', Pickled ''log''), (2, ''/tasks/1/update'', Pickled ''log'')]"
  by (simp add: numbered_rows_def upt_rec numeral_2_eq_2)

lemma wf_numbered_rows: "wf_db (numbered_rows n)"
  by (simp add: wf_db_def numbered_rows_def sorted_wrt_map del: upt_Suc)

lemma db_example_queue: "db (example_queue n) = numbered_rows n"
  by (simp add: example_queue_def new_TaskUpdateQueue_def)

subsection \<open>Enqueuing and the trace\<close>

lemma next_rowid_greater:
  assumes "r \<in> set table"
  shows "fst r < next_rowid table"
proof (cases table)
  case Nil
  with assms show ?thesis by simp
next
  case (Cons r' rs)
  have "fst r \<le> Max (set (map fst table))"
    using assms by (intro Max_ge) auto
  with Cons show ?thesis by simp
qed

lemma wf_db_insert: "wf_db table \<Longrightarrow> wf_db (sql_insert url pickled table)"
  unfolding wf_db_def sql_insert_def
  by (auto simp: sorted_wrt_append dest: next_rowid_greater)

lemma wf_db_queue: "wf_db (db st) \<Longrightarrow> wf_db (db (queue url payload st))"
  by (simp add: queue_def wf_db_insert)

lemma updates_queue:
  "map update_of_row (db (queue url payload st)) = map update_of_row (db st) @ [(url, payload)]"
  by (simp add: queue_def sql_insert_def update_of_row_def pickle_dumps_def)

lemma events_queue: "events (queue url payload st) = events st"
  by (simp add: queue_def)

lemma queue_all_facts:
  "wf_db (db st) \<Longrightarrow>
   wf_db (db (queue_all ups st)) \<and>
   map update_of_row (db (queue_all ups st)) = map update_of_row (db st) @ ups \<and>
   events (queue_all ups st) = events st"
proof (induction ups arbitrary: st)
  case Nil
  then show ?case by simp
next
  case (Cons up ups)
  obtain url payload where up: "up = (url, payload)" by (cases up) auto
  from Cons.IH [OF wf_db_queue [OF Cons.prems], of url payload] up show ?case
    by (simp add: updates_queue events_queue)
qed

lemma posted_append: "posted (xs @ ys) = posted xs @ posted ys"
  by (induction xs rule: posted.induct) auto

lemma delivered_append: "delivered (xs @ ys) = delivered xs @ delivered ys"
  by (induction xs rule: delivered.induct) auto

lemma posted_post_events:
  "length outs \<le> length rows \<Longrightarrow>
   posted (post_events rows outs) = take (length outs) (map update_of_row rows)"
proof (induction rows arbitrary: outs)
  case Nil
  then show ?case by simp
next
  case (Cons r rs)
  then show ?case by (cases outs) (auto simp: update_of_row_def)
qed

lemma delivered_post_events:
  "length outs \<le> length rows \<Longrightarrow> list_all (\<lambda>out. \<not> post_fails out) outs \<Longrightarrow>
   delivered (post_events rows outs) = take (length outs) (map update_of_row rows)"
proof (induction rows arbitrary: outs)
  case Nil
  then show ?case by simp
next
  case (Cons r rs)
  then show ?case by (cases outs) (auto simp: update_of_row_def)
qed

subsection \<open>The shape of a pass\<close>

lemma flush_pass:
  assumes "wf_db (db st)"
  shows "\<exists>outs n. n \<le> length outs \<and> length outs \<le> length (db st) \<and>
     events (snd (flush P st)) = events st @ post_events (db st) outs \<and>
     backoff_time (snd (flush P st)) = backoff_time st \<and>
     db (snd (flush P st)) = drop n (db st) \<and>
     (\<forall>i<n. \<not> post_fails (outs ! i)) \<and>
     (\<forall>i<length outs. post_fails (outs ! i) \<longrightarrow>
        i = n \<and> Suc i = length outs \<and> fst (flush P st) = Inl (error_of (outs ! i))) \<and>
     ((\<exists>e. fst (flush P st) = Inl e) \<longrightarrow> n < length outs) \<and>
     (n < length outs \<longrightarrow> post_fails (outs ! n)) \<and>
     (n = length outs \<longrightarrow>
        fst (flush P st) = Inr (db st = []) \<and> (n = length (db st) \<or> 1000 < n))"
proof -
  obtain res st' where f: "flush P st = (res, st')" by (cases "flush P st") auto
  from flush_shape [OF assms f] obtain outs where
    ev: "events st' = events st @ post_events (db st) outs" and
    bt: "backoff_time st' = backoff_time st" and
    po: "pass_outcomes (db st) res (db st') outs" by blast
  show ?thesis
  proof (cases res)
    case (Inr b)
    with po have "length outs \<le> length (db st)" "b = (db st = [])"
      "\<forall>i<length outs. \<not> post_fails (outs ! i)" "db st' = drop (length outs) (db st)"
      "length outs = length (db st) \<or> 1000 < length outs"
      by (simp_all add: pass_outcomes_def list_all_length)
    with ev bt f Inr have "length outs \<le> length outs \<and> length outs \<le> length (db st) \<and>
     events (snd (flush P st)) = events st @ post_events (db st) outs \<and>
     backoff_time (snd (flush P st)) = backoff_time st \<and>
     db (snd (flush P st)) = drop (length outs) (db st) \<and>
     (\<forall>i<length outs. \<not> post_fails (outs ! i)) \<and>
     (\<forall>i<length outs. post_fails (outs ! i) \<longrightarrow>
        i = length outs \<and> Suc i = length outs \<and> fst (flush P st) = Inl (error_of (outs ! i))) \<and>
     ((\<exists>e. fst (flush P st) = Inl e) \<longrightarrow> length outs < length outs) \<and>
     (length outs < length outs \<longrightarrow> post_fails (outs ! length outs)) \<and>
     (length outs = length outs \<longrightarrow>
        fst (flush P st) = Inr (db st = []) \<and> (length outs = length (db st) \<or> 1000 < length outs))"
      by simp
    then show ?thesis by blast
  next
    case (Inl e)
    with po have len: "length outs \<le> length (db st)" and ne: "outs \<noteq> []"
      and ok: "\<forall>i<length outs - 1. \<not> post_fails (butlast outs ! i)"
      and bad: "post_fails (last outs)" and e: "e = error_of (last outs)"
      and d: "db st' = drop (length outs - 1) (db st)"
      by (simp_all add: pass_outcomes_def list_all_length)
    from ne obtain n where n: "length outs = Suc n" by (cases outs) auto
    from ok n have ok': "\<forall>i<n. \<not> post_fails (outs ! i)"
      by (simp add: nth_butlast)
    have last: "last outs = outs ! n"
      using ne n by (simp add: last_conv_nth)
    have only: "\<forall>i<length outs. post_fails (outs ! i) \<longrightarrow> i = n"
    proof (intro allI impI)
      fix i assume "i < length outs" "post_fails (outs ! i)"
      with ok' n show "i = n" by (cases "i < n") auto
    qed
    have res: "fst (flush P st) = Inl (error_of (outs ! n))"
      using f Inl e last by simp
    have "n \<le> length outs \<and> length outs \<le> length (db st) \<and>
     events (snd (flush P st)) = events st @ post_events (db st) outs \<and>
     backoff_time (snd (flush P st)) = backoff_time st \<and>
     db (snd (flush P st)) = drop n (db st) \<and>
     (\<forall>i<n. \<not> post_fails (outs ! i)) \<and>
     (\<forall>i<length outs. post_fails (outs ! i) \<longrightarrow>
        i = n \<and> Suc i = length outs \<and> fst (flush P st) = Inl (error_of (outs ! i))) \<and>
     ((\<exists>e. fst (flush P st) = Inl e) \<longrightarrow> n < length outs) \<and>
     (n < length outs \<longrightarrow> post_fails (outs ! n)) \<and>
     (n = length outs \<longrightarrow>
        fst (flush P st) = Inr (db st = []) \<and> (n = length (db st) \<or> 1000 < n))"
      using len n ok' only res d ev bt f bad last by auto
    then show ?thesis by blast
  qed
qed

lemma wf_db_drop: "wf_db table \<Longrightarrow> wf_db (drop n table)"
  by (simp add: wf_db_def drop_map [symmetric] sorted_wrt_drop)

lemma flush_and_catch_eq:
  "flush_and_catch P st =
     (case fst (flush P st) of
        Inr b \<Rightarrow> snd (flush P st)
      | Inl e \<Rightarrow> asyncio_sleep (backoff_time (snd (flush P st))) (snd (flush P st)))"
  by (cases "flush P st"; cases "fst (flush P st)")
     (auto simp: flush_and_catch_def split: error.splits)

lemma db_flush_and_catch: "db (flush_and_catch P st) = db (snd (flush P st))"
  by (simp add: flush_and_catch_eq asyncio_sleep_def split: sum.splits)

lemma delivered_flush_and_catch:
  "delivered (events (flush_and_catch P st)) = delivered (events (snd (flush P st)))"
  by (simp add: flush_and_catch_eq asyncio_sleep_def delivered_append split: sum.splits)

lemma delivered_prefix:
  "n \<le> length outs \<Longrightarrow> length outs \<le> length rows \<Longrightarrow> \<forall>i<n. \<not> post_fails (outs ! i) \<Longrightarrow>
   set (take n (map update_of_row rows)) \<subseteq> set (delivered (post_events rows outs))"
proof (induction rows arbitrary: outs n)
  case Nil
  then show ?case by simp
next
  case (Cons r rs)
  show ?case
  proof (cases n)
    case 0
    then show ?thesis by simp
  next
    case (Suc m)
    with Cons.prems obtain out outs' where outs: "outs = out # outs'" by (cases outs) auto
    from Cons.prems Suc outs have ok: "\<not> post_fails out" and rest: "\<forall>i<m. \<not> post_fails (outs' ! i)"
      by auto
    from Cons.IH [of m outs'] Cons.prems Suc outs rest
    have "set (take m (map update_of_row rs)) \<subseteq> set (delivered (post_events rs outs'))" by simp
    moreover have "delivered (post_events (r # rs) (out # outs')) =
        update_of_row r # delivered (post_events rs outs')"
      using ok by (simp add: update_of_row_def)
    ultimately show ?thesis using Suc outs by auto
  qed
qed

lemma kept_or_delivered_queue:
  "kept_or_delivered url payload st \<Longrightarrow> kept_or_delivered url payload (queue url' payload' st)"
  by (auto simp: kept_or_delivered_def events_queue updates_queue simp del: set_map)

lemma kept_or_delivered_queue_new: "kept_or_delivered url payload (queue url payload st)"
  by (simp add: kept_or_delivered_def updates_queue del: set_map)

lemma kept_or_delivered_pass:
  assumes "wf_db (db st)" and "kept_or_delivered url payload st"
  shows "kept_or_delivered url payload (flush_and_catch P st)"
proof -
  from flush_pass [OF assms(1), of P] obtain outs n where
    n: "n \<le> length outs" "length outs \<le> length (db st)" and
    ev: "events (snd (flush P st)) = events st @ post_events (db st) outs" and
    d: "db (snd (flush P st)) = drop n (db st)" and
    ok: "\<forall>i<n. \<not> post_fails (outs ! i)" by blast
  from assms(2) consider
    (kept) "(url, payload) \<in> set (map update_of_row (db st))" |
    (deliv) "(url, payload) \<in> set (delivered (events st))"
    by (auto simp: kept_or_delivered_def)
  then show ?thesis
  proof cases
    case kept
    have "map update_of_row (db st) =
      take n (map update_of_row (db st)) @ map update_of_row (drop n (db st))"
      by (metis append_take_drop_id drop_map)
    with kept have "(url, payload) \<in> set (take n (map update_of_row (db st))) \<or>
      (url, payload) \<in> set (map update_of_row (drop n (db st)))"
      by (metis Un_iff set_append)
    then show ?thesis
    proof
      assume "(url, payload) \<in> set (take n (map update_of_row (db st)))"
      with delivered_prefix [OF n ok] have "(url, payload) \<in> set (delivered (post_events (db st) outs))"
        by blast
      then show ?thesis
        by (simp add: kept_or_delivered_def delivered_flush_and_catch ev delivered_append)
    next
      assume "(url, payload) \<in> set (map update_of_row (drop n (db st)))"
      then show ?thesis
        by (simp add: kept_or_delivered_def db_flush_and_catch d)
    qed
  next
    case deliv
    then show ?thesis
      by (simp add: kept_or_delivered_def delivered_flush_and_catch ev delivered_append)
  qed
qed

lemma wf_db_flush_and_catch: "wf_db (db st) \<Longrightarrow> wf_db (db (flush_and_catch P st))"
proof -
  assume wf: "wf_db (db st)"
  from flush_pass [OF wf, of P] obtain n where "db (snd (flush P st)) = drop n (db st)" by blast
  with wf show ?thesis by (simp add: db_flush_and_catch wf_db_drop)
qed

lemma run_keeps:
  "wf_db (db st) \<Longrightarrow> kept_or_delivered url payload st \<Longrightarrow>
   wf_db (db (run P calls st)) \<and> kept_or_delivered url payload (run P calls st)"
proof (induction calls arbitrary: st)
  case Nil
  then show ?case by simp
next
  case (Cons c calls)
  show ?case
  proof (cases c)
    case (Queue url' payload')
    with Cons.IH [OF wf_db_queue [OF Cons.prems(1)] kept_or_delivered_queue [OF Cons.prems(2)]]
    show ?thesis by simp
  next
    case Work
    with Cons.IH [OF wf_db_flush_and_catch [OF Cons.prems(1)]
        kept_or_delivered_pass [OF Cons.prems(1) Cons.prems(2)]]
    show ?thesis by simp
  qed
qed

lemma run_accepted:
  "wf_db (db st) \<Longrightarrow> Queue url payload \<in> set calls \<Longrightarrow>
   kept_or_delivered url payload (run P calls st)"
proof (induction calls arbitrary: st)
  case Nil
  then show ?case by simp
next
  case (Cons c calls)
  show ?case
  proof (cases "c = Queue url payload")
    case True
    from run_keeps [OF wf_db_queue [OF Cons.prems(1)] kept_or_delivered_queue_new]
    have "kept_or_delivered url payload (run P calls (queue url payload st))" by blast
    with True show ?thesis by simp
  next
    case False
    with Cons.prems have mem: "Queue url payload \<in> set calls" by simp
    show ?thesis
    proof (cases c)
      case (Queue url' payload')
      with Cons.IH [OF wf_db_queue [OF Cons.prems(1)] mem] show ?thesis by simp
    next
      case Work
      with Cons.IH [OF wf_db_flush_and_catch [OF Cons.prems(1)] mem] show ?thesis by simp
    qed
  qed
qed

lemma last_nth_Suc: "Suc n = length xs \<Longrightarrow> xs \<noteq> [] \<and> last xs = xs ! n"
  by (cases xs rule: rev_cases) (auto simp: nth_append)

lemma wf_db_distinct: "wf_db table \<Longrightarrow> distinct table"
  by (auto simp: wf_db_def strict_sorted_iff distinct_map)

lemma nth_notin_drop:
  "distinct xs \<Longrightarrow> i < n \<Longrightarrow> i < length xs \<Longrightarrow> xs ! i \<notin> set (drop n xs)"
  by (auto simp: in_set_conv_nth nth_eq_iff_index_eq)

lemma nth_in_drop: "n \<le> j \<Longrightarrow> j < length xs \<Longrightarrow> xs ! j \<in> set (drop n xs)"
  by (auto simp: in_set_conv_nth intro!: exI [of _ "j - n"])

lemma flush_loop_always_respond:
  assumes ok: "\<not> post_fails (Inr (Response code []))"
  shows "wf_db rows \<Longrightarrow> db st = rows \<Longrightarrow> h \<le> 1000 \<Longrightarrow>
     fst (flush_loop (always_respond code) (map unpickle_row rows) q h st) =
       Inr (q \<and> rows = [], h + min (length rows) (1001 - h)) \<and>
     events (snd (flush_loop (always_respond code) (map unpickle_row rows) q h st)) =
       events st @ post_events rows (replicate (min (length rows) (1001 - h)) (Inr (Response code []))) \<and>
     db (snd (flush_loop (always_respond code) (map unpickle_row rows) q h st)) =
       drop (min (length rows) (1001 - h)) rows"
proof (induction rows arbitrary: st q h)
  case Nil
  then show ?case by simp
next
  case (Cons r rs)
  obtain rowid url b where r: "r = (rowid, url, b)" by (cases r) auto
  define st1 where "st1 = st\<lparr>manager := manager st,
      events := events st @ [Posted url (pickle_loads b) (Inr (Response code []))],
      db := sql_delete rowid (db st)\<rparr>"
  have db1: "db st1 = rs"
    using wf_db_delete_head [OF Cons.prems(1)] Cons.prems(2) r by (simp add: st1_def)
  have step: "flush_loop (always_respond code) (map unpickle_row (r # rs)) q h st =
      (if 1000 < h + 1 then (Inr (False, h + 1), st1)
       else flush_loop (always_respond code) (map unpickle_row rs) False (h + 1) st1)"
    using ok by (simp add: r flush_loop_ok always_respond_def st1_def Let_def)
  show ?case
  proof (cases "1000 < h + 1")
    case True
    with Cons.prems(3) have h: "h = 1000" by simp
    from True step db1 show ?thesis by (simp add: h st1_def r)
  next
    case False
    then have h1: "h + 1 \<le> 1000" by simp
    from Cons.IH [OF wf_db_Cons [OF Cons.prems(1)] db1 h1, of False]
    have ih: "fst (flush_loop (always_respond code) (map unpickle_row rs) False (h + 1) st1) =
        Inr (False \<and> rs = [], h + 1 + min (length rs) (1001 - (h + 1)))"
      "events (snd (flush_loop (always_respond code) (map unpickle_row rs) False (h + 1) st1)) =
        events st1 @ post_events rs (replicate (min (length rs) (1001 - (h + 1))) (Inr (Response code [])))"
      "db (snd (flush_loop (always_respond code) (map unpickle_row rs) False (h + 1) st1)) =
        drop (min (length rs) (1001 - (h + 1))) rs"
      by blast+
    have m: "min (length (r # rs)) (1001 - h) = Suc (min (length rs) (1001 - (h + 1)))"
      using h1 by (auto simp: min_def)
    from False step ih show ?thesis
      unfolding m by (simp add: st1_def r)
  qed
qed

lemma post_events_numbered_rows:
  "post_events (numbered_rows n) (replicate k out) =
     replicate (min n k) (Posted ''/tasks/1/update'' ''log'' out)"
proof -
  have "zip (numbered_rows n) (replicate k out) =
      map (\<lambda>r. (r, out)) (take k (numbered_rows n))"
    by (simp add: zip_replicate2 min.commute)
  then show ?thesis
    by (simp add: post_events_def numbered_rows_def comp_def take_map map_replicate_const
        min.commute del: upt_Suc)
qed

lemma drop_numbered_rows:
  "drop k (numbered_rows n) =
     map (\<lambda>i. (int i, ''/tasks/1/update'', Pickled ''log'')) [Suc k..<Suc n]"
  by (simp add: numbered_rows_def drop_map del: upt_Suc)

lemma length_numbered_rows: "length (numbered_rows n) = n"
  by (simp add: numbered_rows_def del: upt_Suc)

lemma flush_always_respond_example:
  assumes ok: "\<not> post_fails (Inr (Response code []))"
  shows "fst (flush (always_respond code) (example_queue n)) = Inr (n = 0) \<and>
     events (snd (flush (always_respond code) (example_queue n))) =
       replicate (min n 1001) (Posted ''/tasks/1/update'' ''log'' (Inr (Response code []))) \<and>
     db (snd (flush (always_respond code) (example_queue n))) =
       map (\<lambda>i. (int i, ''/tasks/1/update'', Pickled ''log'')) [Suc (min n 1001)..<Suc n]"
proof -
  have wf: "wf_db (db (example_queue n))" by (simp add: db_example_queue wf_numbered_rows)
  have ev: "events (example_queue n) = []" by (simp add: example_queue_def new_TaskUpdateQueue_def)
  obtain lres st1 where loop:
    "flush_loop (always_respond code) (map unpickle_row (numbered_rows n)) True 0 (example_queue n) = (lres, st1)"
    by (cases "flush_loop (always_respond code) (map unpickle_row (numbered_rows n)) True 0 (example_queue n)") auto
  from flush_loop_always_respond [OF ok wf_numbered_rows db_example_queue, of 0 n True] loop
  have l: "lres = Inr (n = 0, min n 1001)"
    and e: "events st1 = replicate (min n 1001) (Posted ''/tasks/1/update'' ''log'' (Inr (Response code [])))"
    and d: "db st1 = drop (min n 1001) (numbered_rows n)"
    by (simp_all add: length_numbered_rows post_events_numbered_rows ev numbered_rows_0 del: upt_Suc)
       (auto simp: numbered_rows_def)
  show ?thesis
    using loop l e d
    by (simp add: flush_def underscore_queue_wf [OF wf] db_example_queue drop_numbered_rows del: upt_Suc)
qed

lemma wf_example_queue: "wf_db (db (example_queue n))"
  by (simp add: db_example_queue wf_numbered_rows)

subsection \<open>Rows leave the table only through a completed POST\<close>

text \<open>
  Claim C1, as amended. Let a pass run on a table with distinct rowids, and let \<open>outs\<close> be
  the outcomes of the POSTs it makes, which are for the first rows of the table in order,
  each POST carrying the url and the unpickled payload of its row. The rows the pass
  removes are the first \<open>n\<close> rows, and the POST of each of them completed without an
  exception: it returned 409 or a status that \<^verbatim>\<open>raise_for_status\<close> accepts, which is every
  status outside 400 to 599. If a POST fails (it raises, or returns a status from 400 to 599
  other than 409) it is the POST of row \<open>n\<close>: that row and all later rows remain, and the
  error leaves \<^verbatim>\<open>flush\<close>. Hence over any sequence of \<^verbatim>\<open>queue\<close> calls and drain passes, every
  update accepted by \<^verbatim>\<open>queue\<close> is still in the table or a POST carrying it has completed.
\<close>

theorem unqueued_only_after_completed_post:
  assumes "wf_db (db st)"
  shows "(\<exists>outs n. n \<le> length outs \<and> length outs \<le> length (db st) \<and>
            events (snd (flush P st)) = events st @ post_events (db st) outs \<and>
            db (snd (flush P st)) = drop n (db st) \<and>
            (\<forall>i<n. \<not> post_fails (outs ! i)) \<and>
            (\<forall>i<length outs. post_fails (outs ! i) \<longrightarrow>
               i = n \<and> fst (flush P st) = Inl (error_of (outs ! i)))) \<and>
         (Queue url payload \<in> set calls \<longrightarrow> kept_or_delivered url payload (run P calls st))"
proof
  from flush_pass [OF assms, of P] obtain outs n where
    "n \<le> length outs \<and> length outs \<le> length (db st) \<and>
            events (snd (flush P st)) = events st @ post_events (db st) outs \<and>
            db (snd (flush P st)) = drop n (db st) \<and>
            (\<forall>i<n. \<not> post_fails (outs ! i)) \<and>
            (\<forall>i<length outs. post_fails (outs ! i) \<longrightarrow>
               i = n \<and> fst (flush P st) = Inl (error_of (outs ! i)))"
    by blast
  then show "\<exists>outs n. n \<le> length outs \<and> length outs \<le> length (db st) \<and>
            events (snd (flush P st)) = events st @ post_events (db st) outs \<and>
            db (snd (flush P st)) = drop n (db st) \<and>
            (\<forall>i<n. \<not> post_fails (outs ! i)) \<and>
            (\<forall>i<length outs. post_fails (outs ! i) \<longrightarrow>
               i = n \<and> fst (flush P st) = Inl (error_of (outs ! i)))"
    by blast
next
  show "Queue url payload \<in> set calls \<longrightarrow> kept_or_delivered url payload (run P calls st)"
    using run_accepted [OF assms] by blast
qed

text \<open>
  One row, a Manager that answers 500, and an update queued before a drain pass: the
  pass raises and removes nothing, and the queued update is still in the table.
\<close>

theorem unqueued_only_after_completed_post_witness:
  "wf_db (db (example_queue 1)) \<and>
   Queue ''/tasks/2/update'' ''done'' \<in> set [Queue ''/tasks/2/update'' ''done'', Work] \<and>
   kept_or_delivered ''/tasks/2/update'' ''done''
     (run (always_respond 500) [Queue ''/tasks/2/update'' ''done'', Work] (example_queue 1)) \<and>
   (\<exists>outs n. n \<le> length outs \<and> length outs \<le> length (db (example_queue 1)) \<and>
      events (snd (flush (always_respond 500) (example_queue 1))) =
        events (example_queue 1) @ post_events (db (example_queue 1)) outs \<and>
      db (snd (flush (always_respond 500) (example_queue 1))) = drop n (db (example_queue 1)) \<and>
      (\<forall>i<n. \<not> post_fails (outs ! i)) \<and>
      (\<forall>i<length outs. post_fails (outs ! i) \<longrightarrow>
         i = n \<and> fst (flush (always_respond 500) (example_queue 1)) = Inl (error_of (outs ! i)))) \<and>
   fst (flush (always_respond 500) (example_queue 1)) = Inl (HTTPError 500) \<and>
   db (snd (flush (always_respond 500) (example_queue 1))) = db (example_queue 1)"
proof -
  have h: "wf_db (db (example_queue 1))" by (rule wf_example_queue)
  have m: "Queue ''/tasks/2/update'' ''done'' \<in> set [Queue ''/tasks/2/update'' ''done'', Work]"
    by simp
  note t = unqueued_only_after_completed_post [OF h, of "always_respond 500"
      "''/tasks/2/update''" "''done''" "[Queue ''/tasks/2/update'' ''done'', Work]"]
  from t have k: "kept_or_delivered ''/tasks/2/update'' ''done''
     (run (always_respond 500) [Queue ''/tasks/2/update'' ''done'', Work] (example_queue 1))"
    using m by (rule conjunct2 [THEN mp])
  have e: "fst (flush (always_respond 500) (example_queue 1)) = Inl (HTTPError 500) \<and>
   db (snd (flush (always_respond 500) (example_queue 1))) = db (example_queue 1)"
    by (simp add: flush_def underscore_queue_def sql_select_ordered_def example_queue_def
      new_TaskUpdateQueue_def numbered_rows_1 flush_loop_fail post_fails_def always_respond_def
      error_of_def)
  show ?thesis by (rule conjI [OF h conjI [OF m conjI [OF k conjI [OF conjunct1 [OF t] e]]]])
qed

text \<open>
  Claim C1 as stated fails: the Manager answers the POST of the only row with 304, which is
  neither a 2xx nor a 409 status; \<^verbatim>\<open>raise_for_status\<close> accepts it and the row is removed.
\<close>

theorem unqueued_counterexample:
  "db (example_queue 1) = [(1, ''/tasks/1/update'', Pickled ''log'')] \<and>
   events (snd (flush (always_respond 304) (example_queue 1))) =
     [Posted ''/tasks/1/update'' ''log'' (Inr (Response 304 []))] \<and>
   db (snd (flush (always_respond 304) (example_queue 1))) = []"
proof -
  have ok: "\<not> post_fails (Inr (Response 304 []))" by (simp add: post_fails_def)
  from flush_always_respond_example [OF ok, of 1] show ?thesis
    by (simp add: db_example_queue numbered_rows_1)
qed

subsection \<open>First in, first out\<close>

text \<open>
  Claim C2. After any sequence of \<^verbatim>\<open>queue\<close> calls, the updates a flush pass POSTs are an
  initial segment of the queued updates in the order of their enqueuing (the rows already in
  the table first): no two are reordered. A pass that returns normally over a queue of at
  most 1000 items has POSTed every one of them.
\<close>

theorem flush_posts_in_enqueue_order:
  assumes "wf_db (db st0)"
  shows "\<exists>k. posted (events (snd (flush P (queue_all ups st0)))) =
               posted (events st0) @ take k (map update_of_row (db st0) @ ups) \<and>
             ((\<exists>b. fst (flush P (queue_all ups st0)) = Inr b) \<and> length (db st0) + length ups \<le> 1000
                \<longrightarrow> k = length (db st0) + length ups)"
proof -
  define st where "st = queue_all ups st0"
  from queue_all_facts [OF assms, of ups] have wf: "wf_db (db st)"
    and ups: "map update_of_row (db st) = map update_of_row (db st0) @ ups"
    and ev0: "events st = events st0" by (simp_all add: st_def)
  from ups have len: "length (db st) = length (db st0) + length ups"
    by (metis length_append length_map)
  from flush_pass [OF wf, of P] obtain outs n where
    n: "n \<le> length outs" "length outs \<le> length (db st)" and
    ev: "events (snd (flush P st)) = events st @ post_events (db st) outs" and
    fail: "\<forall>i<length outs. post_fails (outs ! i) \<longrightarrow>
        i = n \<and> Suc i = length outs \<and> fst (flush P st) = Inl (error_of (outs ! i))" and
    bad: "n < length outs \<longrightarrow> post_fails (outs ! n)" and
    full: "n = length outs \<longrightarrow>
        fst (flush P st) = Inr (db st = []) \<and> (n = length (db st) \<or> 1000 < n)" by blast
  have p: "posted (events (snd (flush P st))) =
      posted (events st0) @ take (length outs) (map update_of_row (db st0) @ ups)"
    using ev ev0 n(2) ups by (simp add: posted_append posted_post_events)
  have "(\<exists>b. fst (flush P st) = Inr b) \<and> length (db st0) + length ups \<le> 1000
          \<longrightarrow> length outs = length (db st0) + length ups"
  proof
    assume a: "(\<exists>b. fst (flush P st) = Inr b) \<and> length (db st0) + length ups \<le> 1000"
    have "\<not> n < length outs"
    proof
      assume "n < length outs"
      with bad fail have "fst (flush P st) = Inl (error_of (outs ! n))" by blast
      with a show False by auto
    qed
    with n have "n = length outs" by simp
    with full n a len show "length outs = length (db st0) + length ups" by auto
  qed
  with p show ?thesis unfolding st_def by blast
qed

text \<open>
  One row and one more update queued: the pass POSTs the two updates in that order.
\<close>

theorem flush_posts_in_enqueue_order_witness:
  "wf_db (db (example_queue 1)) \<and>
   (\<exists>k. posted (events (snd (flush (always_respond 200)
            (queue_all [(''/tasks/2/update'', ''done'')] (example_queue 1))))) =
          posted (events (example_queue 1)) @
          take k (map update_of_row (db (example_queue 1)) @ [(''/tasks/2/update'', ''done'')]) \<and>
        ((\<exists>b. fst (flush (always_respond 200)
            (queue_all [(''/tasks/2/update'', ''done'')] (example_queue 1))) = Inr b) \<and>
         length (db (example_queue 1)) + length [(''/tasks/2/update'', ''done'')] \<le> 1000
           \<longrightarrow> k = length (db (example_queue 1)) + length [(''/tasks/2/update'', ''done'')])) \<and>
   posted (events (snd (flush (always_respond 200)
            (queue_all [(''/tasks/2/update'', ''done'')] (example_queue 1))))) =
     [(''/tasks/1/update'', ''log''), (''/tasks/2/update'', ''done'')]"
proof -
  have h: "wf_db (db (example_queue 1))" by (rule wf_example_queue)
  have e: "posted (events (snd (flush (always_respond 200)
            (queue_all [(''/tasks/2/update'', ''done'')] (example_queue 1))))) =
     [(''/tasks/1/update'', ''log''), (''/tasks/2/update'', ''done'')]"
    by (simp add: flush_def underscore_queue_def sql_select_ordered_def example_queue_def
      new_TaskUpdateQueue_def numbered_rows_1 flush_loop_ok post_fails_def always_respond_def
      sql_delete_def queue_def sql_insert_def pickle_dumps_def)
  show ?thesis by (rule conjI [OF h conjI [OF flush_posts_in_enqueue_order [OF h] e]])
qed

subsection \<open>A 409 response\<close>

text \<open>
  Claim C3, as amended. If the POST of the \<open>i\<close>-th row of a pass returns 409, the row is not in
  the table after the pass, so that no later pass reads it; an exception that leaves the pass
  comes from a later POST; the pass goes on to POST the next row when there is one, as long
  as fewer than 1000 rows, this one included, have been handled in the pass; no other POST
  of the pass is for that row; and every other row that the pass removed was removed after
  its own POST completed, so a row with the same url is not discarded along with it.
\<close>

theorem conflict_discards_row_and_continues:
  assumes "wf_db (db st)"
  shows "\<exists>outs. length outs \<le> length (db st) \<and>
           events (snd (flush P st)) = events st @ post_events (db st) outs \<and>
           (\<forall>i<length outs. is_conflict (outs ! i) \<longrightarrow>
              db st ! i \<notin> set (db (snd (flush P st))) \<and>
              (\<forall>e. fst (flush P st) = Inl e \<longrightarrow> Suc i < length outs \<and> e = error_of (last outs)) \<and>
              (Suc i < length (db st) \<and> Suc i < 1000 \<longrightarrow> Suc i < length outs) \<and>
              (\<forall>j<length outs. j \<noteq> i \<longrightarrow> db st ! j \<noteq> db st ! i) \<and>
              (\<forall>j<length (db st). j \<noteq> i \<and> db st ! j \<notin> set (db (snd (flush P st))) \<longrightarrow>
                 j < length outs \<and> \<not> post_fails (outs ! j)))"
proof -
  from flush_pass [OF assms, of P] obtain outs n where
    n: "n \<le> length outs" "length outs \<le> length (db st)" and
    ev: "events (snd (flush P st)) = events st @ post_events (db st) outs" and
    d: "db (snd (flush P st)) = drop n (db st)" and
    ok: "\<forall>i<n. \<not> post_fails (outs ! i)" and
    fail: "\<forall>i<length outs. post_fails (outs ! i) \<longrightarrow>
        i = n \<and> Suc i = length outs \<and> fst (flush P st) = Inl (error_of (outs ! i))" and
    raised: "(\<exists>e. fst (flush P st) = Inl e) \<longrightarrow> n < length outs" and
    bad: "n < length outs \<longrightarrow> post_fails (outs ! n)" and
    full: "n = length outs \<longrightarrow>
        fst (flush P st) = Inr (db st = []) \<and> (n = length (db st) \<or> 1000 < n)" by blast
  have dist: "distinct (db st)" by (rule wf_db_distinct [OF assms])
  have "\<forall>i<length outs. is_conflict (outs ! i) \<longrightarrow>
              db st ! i \<notin> set (db (snd (flush P st))) \<and>
              (\<forall>e. fst (flush P st) = Inl e \<longrightarrow> Suc i < length outs \<and> e = error_of (last outs)) \<and>
              (Suc i < length (db st) \<and> Suc i < 1000 \<longrightarrow> Suc i < length outs) \<and>
              (\<forall>j<length outs. j \<noteq> i \<longrightarrow> db st ! j \<noteq> db st ! i) \<and>
              (\<forall>j<length (db st). j \<noteq> i \<and> db st ! j \<notin> set (db (snd (flush P st))) \<longrightarrow>
                 j < length outs \<and> \<not> post_fails (outs ! j))"
  proof (intro allI impI)
    fix i assume i: "i < length outs" and c: "is_conflict (outs ! i)"
    from c have nf: "\<not> post_fails (outs ! i)"
      by (auto simp: is_conflict_def post_fails_def split: sum.splits)
    have "i \<noteq> n" using nf bad i by auto
    moreover have "\<not> n < i"
    proof
      assume "n < i"
      with i have "n < length outs" by simp
      with bad fail have "Suc n = length outs" by blast
      with \<open>n < i\<close> i show False by simp
    qed
    ultimately have lt: "i < n" by simp
    have a: "db st ! i \<notin> set (db (snd (flush P st)))"
      using nth_notin_drop [OF dist lt] i n d by simp
    have b: "\<forall>e. fst (flush P st) = Inl e \<longrightarrow> Suc i < length outs \<and> e = error_of (last outs)"
    proof (intro allI impI)
      fix e assume e: "fst (flush P st) = Inl e"
      with raised have nl: "n < length outs" by blast
      with bad fail have "Suc n = length outs" "fst (flush P st) = Inl (error_of (outs ! n))"
        by blast+
      moreover from last_nth_Suc [OF this(1)] have "last outs = outs ! n" ..
      ultimately show "Suc i < length outs \<and> e = error_of (last outs)"
        using e lt by simp
    qed
    have c': "Suc i < length (db st) \<and> Suc i < 1000 \<longrightarrow> Suc i < length outs"
    proof (cases "n < length outs")
      case True
      with lt show ?thesis by simp
    next
      case False
      with n have "n = length outs" by simp
      with full lt show ?thesis by auto
    qed
    have d': "\<forall>j<length outs. j \<noteq> i \<longrightarrow> db st ! j \<noteq> db st ! i"
      using dist i n by (auto simp: nth_eq_iff_index_eq)
    have e': "\<forall>j<length (db st). j \<noteq> i \<and> db st ! j \<notin> set (db (snd (flush P st))) \<longrightarrow>
                 j < length outs \<and> \<not> post_fails (outs ! j)"
    proof (intro allI impI)
      fix j assume j: "j < length (db st)"
        and "j \<noteq> i \<and> db st ! j \<notin> set (db (snd (flush P st)))"
      then have "db st ! j \<notin> set (drop n (db st))" by (simp add: d)
      with nth_in_drop [of n j "db st"] j have "j < n" by (cases "j < n") auto
      with ok n show "j < length outs \<and> \<not> post_fails (outs ! j)" by simp
    qed
    from a b c' d' e' show "db st ! i \<notin> set (db (snd (flush P st))) \<and>
              (\<forall>e. fst (flush P st) = Inl e \<longrightarrow> Suc i < length outs \<and> e = error_of (last outs)) \<and>
              (Suc i < length (db st) \<and> Suc i < 1000 \<longrightarrow> Suc i < length outs) \<and>
              (\<forall>j<length outs. j \<noteq> i \<longrightarrow> db st ! j \<noteq> db st ! i) \<and>
              (\<forall>j<length (db st). j \<noteq> i \<and> db st ! j \<notin> set (db (snd (flush P st))) \<longrightarrow>
                 j < length outs \<and> \<not> post_fails (outs ! j))"
      by blast
  qed
  with n(2) ev have body: "length outs \<le> length (db st) \<and>
           events (snd (flush P st)) = events st @ post_events (db st) outs \<and>
           (\<forall>i<length outs. is_conflict (outs ! i) \<longrightarrow>
              db st ! i \<notin> set (db (snd (flush P st))) \<and>
              (\<forall>e. fst (flush P st) = Inl e \<longrightarrow> Suc i < length outs \<and> e = error_of (last outs)) \<and>
              (Suc i < length (db st) \<and> Suc i < 1000 \<longrightarrow> Suc i < length outs) \<and>
              (\<forall>j<length outs. j \<noteq> i \<longrightarrow> db st ! j \<noteq> db st ! i) \<and>
              (\<forall>j<length (db st). j \<noteq> i \<and> db st ! j \<notin> set (db (snd (flush P st))) \<longrightarrow>
                 j < length outs \<and> \<not> post_fails (outs ! j)))"
    by (intro conjI)
  show ?thesis by (rule exI [of _ outs]) (rule body)
qed

text \<open>
  Two rows with the same url and a Manager that answers 409 to both: each is POSTed once
  and removed, and the pass returns False.
\<close>

theorem conflict_discards_row_and_continues_witness:
  "wf_db (db (example_queue 2)) \<and>
   (\<exists>outs. length outs \<le> length (db (example_queue 2)) \<and>
      events (snd (flush (always_respond 409) (example_queue 2))) =
        events (example_queue 2) @ post_events (db (example_queue 2)) outs \<and>
      (\<forall>i<length outs. is_conflict (outs ! i) \<longrightarrow>
         db (example_queue 2) ! i \<notin> set (db (snd (flush (always_respond 409) (example_queue 2)))) \<and>
         (\<forall>e. fst (flush (always_respond 409) (example_queue 2)) = Inl e \<longrightarrow>
            Suc i < length outs \<and> e = error_of (last outs)) \<and>
         (Suc i < length (db (example_queue 2)) \<and> Suc i < 1000 \<longrightarrow> Suc i < length outs) \<and>
         (\<forall>j<length outs. j \<noteq> i \<longrightarrow> db (example_queue 2) ! j \<noteq> db (example_queue 2) ! i) \<and>
         (\<forall>j<length (db (example_queue 2)).
            j \<noteq> i \<and> db (example_queue 2) ! j \<notin> set (db (snd (flush (always_respond 409) (example_queue 2))))
            \<longrightarrow> j < length outs \<and> \<not> post_fails (outs ! j)))) \<and>
   events (snd (flush (always_respond 409) (example_queue 2))) =
     [Posted ''/tasks/1/update'' ''log'' (Inr (Response 409 [])),
      Posted ''/tasks/1/update'' ''log'' (Inr (Response 409 []))] \<and>
   db (snd (flush (always_respond 409) (example_queue 2))) = [] \<and>
   fst (flush (always_respond 409) (example_queue 2)) = Inr False"
proof -
  have h: "wf_db (db (example_queue 2))" by (rule wf_example_queue)
  have ok: "\<not> post_fails (Inr (Response 409 []))" by (simp add: post_fails_def)
  from flush_always_respond_example [OF ok, of 2]
  have e: "events (snd (flush (always_respond 409) (example_queue 2))) =
     [Posted ''/tasks/1/update'' ''log'' (Inr (Response 409 [])),
      Posted ''/tasks/1/update'' ''log'' (Inr (Response 409 []))] \<and>
   db (snd (flush (always_respond 409) (example_queue 2))) = [] \<and>
   fst (flush (always_respond 409) (example_queue 2)) = Inr False"
    by (simp add: numeral_2_eq_2)
  show ?thesis by (rule conjI [OF h conjI [OF conflict_discards_row_and_continues [OF h] e]])
qed

text \<open>
  Claim C3 as stated fails: 1002 rows are queued and the Manager answers 409 to every POST.
  The POST of the 1001st row returns 409, and the pass does not continue with the next
  item: it ends after 1001 POSTs and row 1002 is still in the table.
\<close>

theorem conflict_at_cap_counterexample:
  "length (db (example_queue 1002)) = 1002 \<and>
   fst (flush (always_respond 409) (example_queue 1002)) = Inr False \<and>
   events (snd (flush (always_respond 409) (example_queue 1002))) =
     replicate 1001 (Posted ''/tasks/1/update'' ''log'' (Inr (Response 409 []))) \<and>
   db (snd (flush (always_respond 409) (example_queue 1002))) =
     [(1002, ''/tasks/1/update'', Pickled ''log'')]"
proof -
  have ok: "\<not> post_fails (Inr (Response 409 []))" by (simp add: post_fails_def)
  have "[Suc (min 1002 1001)..<Suc 1002] = [1002]" by simp
  with flush_always_respond_example [OF ok, of 1002] show ?thesis
    by (simp add: db_example_queue length_numbered_rows del: upt_Suc)
qed

subsection \<open>A failed POST\<close>

lemma backoff_time_default: "backoff_time (new_TaskUpdateQueue m table) = 5"
  by (simp add: new_TaskUpdateQueue_def BACKOFF_TIME_def)

text \<open>
  Claim C4, as amended. If a POST of the pass fails (it raises, or returns a status from 400
  to 599 other than 409), it is the last POST of the pass, its row and all later rows are
  still in the table, and \<^verbatim>\<open>flush_and_catch\<close> sleeps \<^verbatim>\<open>backoff_time\<close> right after it, before it
  returns to the drain loop; \<^verbatim>\<open>backoff_time\<close> is 5 unless the constructor is given another
  value. A pass without a failed POST does not sleep.
\<close>

theorem failed_post_stops_pass_and_backs_off:
  assumes "wf_db (db st)"
  shows "(\<exists>outs. length outs \<le> length (db st) \<and>
            events (flush_and_catch P st) =
              events st @ post_events (db st) outs @
              (if outs \<noteq> [] \<and> post_fails (last outs) then [Slept (backoff_time st)] else []) \<and>
            (\<forall>i<length outs. post_fails (outs ! i) \<longrightarrow>
               Suc i = length outs \<and> db (flush_and_catch P st) = drop i (db st))) \<and>
         backoff_time (new_TaskUpdateQueue m table) = 5"
proof -
  from flush_pass [OF assms, of P] obtain outs n where
    n: "n \<le> length outs" "length outs \<le> length (db st)" and
    ev: "events (snd (flush P st)) = events st @ post_events (db st) outs" and
    bt: "backoff_time (snd (flush P st)) = backoff_time st" and
    d: "db (snd (flush P st)) = drop n (db st)" and
    fail: "\<forall>i<length outs. post_fails (outs ! i) \<longrightarrow>
        i = n \<and> Suc i = length outs \<and> fst (flush P st) = Inl (error_of (outs ! i))" and
    raised: "(\<exists>e. fst (flush P st) = Inl e) \<longrightarrow> n < length outs" and
    bad: "n < length outs \<longrightarrow> post_fails (outs ! n)" and
    full: "n = length outs \<longrightarrow>
        fst (flush P st) = Inr (db st = []) \<and> (n = length (db st) \<or> 1000 < n)" by blast
  have stop: "\<forall>i<length outs. post_fails (outs ! i) \<longrightarrow>
               Suc i = length outs \<and> db (flush_and_catch P st) = drop i (db st)"
    using fail d by (auto simp: db_flush_and_catch)
  have evs: "events (flush_and_catch P st) =
              events st @ post_events (db st) outs @
              (if outs \<noteq> [] \<and> post_fails (last outs) then [Slept (backoff_time st)] else [])"
  proof (cases "n < length outs")
    case True
    with bad fail have sn: "Suc n = length outs" and r: "fst (flush P st) = Inl (error_of (outs ! n))"
      and f: "post_fails (outs ! n)" by blast+
    from last_nth_Suc [OF sn] have "outs \<noteq> []" "last outs = outs ! n"
      by blast+
    with f r ev bt show ?thesis
      by (simp add: flush_and_catch_eq asyncio_sleep_def)
  next
    case False
    with n have eq: "n = length outs" by simp
    with full have r: "fst (flush P st) = Inr (db st = [])" by blast
    have "\<not> (outs \<noteq> [] \<and> post_fails (last outs))"
    proof
      assume a: "outs \<noteq> [] \<and> post_fails (last outs)"
      then obtain k where k: "Suc k = length outs" by (cases outs) auto
      from k have "k < length outs" by simp
      moreover from a last_nth_Suc [OF k] have "post_fails (outs ! k)" by simp
      ultimately have "k < length outs" "post_fails (outs ! k)" .
      with fail have "fst (flush P st) = Inl (error_of (outs ! k))" by blast
      with r show False by simp
    qed
    with r ev show ?thesis by (simp add: flush_and_catch_eq)
  qed
  from n(2) evs stop have body: "length outs \<le> length (db st) \<and>
            events (flush_and_catch P st) =
              events st @ post_events (db st) outs @
              (if outs \<noteq> [] \<and> post_fails (last outs) then [Slept (backoff_time st)] else []) \<and>
            (\<forall>i<length outs. post_fails (outs ! i) \<longrightarrow>
               Suc i = length outs \<and> db (flush_and_catch P st) = drop i (db st))"
    by (intro conjI)
  have "\<exists>outs. length outs \<le> length (db st) \<and>
            events (flush_and_catch P st) =
              events st @ post_events (db st) outs @
              (if outs \<noteq> [] \<and> post_fails (last outs) then [Slept (backoff_time st)] else []) \<and>
            (\<forall>i<length outs. post_fails (outs ! i) \<longrightarrow>
               Suc i = length outs \<and> db (flush_and_catch P st) = drop i (db st))"
    by (rule exI [of _ outs]) (rule body)
  then show ?thesis using backoff_time_default [of m table] by (rule conjI)
qed

text \<open>
  One row and a Manager that cannot be reached: the POST raises \<^verbatim>\<open>ConnectionError\<close>, the
  row stays, and the pass is followed by a sleep of 5 seconds.
\<close>

theorem failed_post_stops_pass_and_backs_off_witness:
  "wf_db (db (example_queue 1)) \<and>
   ((\<exists>outs. length outs \<le> length (db (example_queue 1)) \<and>
       events (flush_and_catch (always_raise ConnectionError) (example_queue 1)) =
         events (example_queue 1) @ post_events (db (example_queue 1)) outs @
         (if outs \<noteq> [] \<and> post_fails (last outs)
          then [Slept (backoff_time (example_queue 1))] else []) \<and>
       (\<forall>i<length outs. post_fails (outs ! i) \<longrightarrow>
          Suc i = length outs \<and>
          db (flush_and_catch (always_raise ConnectionError) (example_queue 1)) =
            drop i (db (example_queue 1)))) \<and>
    backoff_time (new_TaskUpdateQueue () ([] :: string row list)) = 5) \<and>
   events (flush_and_catch (always_raise ConnectionError) (example_queue 1)) =
     [Posted ''/tasks/1/update'' ''log'' (Inl ConnectionError), Slept 5] \<and>
   db (flush_and_catch (always_raise ConnectionError) (example_queue 1)) = db (example_queue 1)"
proof -
  have h: "wf_db (db (example_queue 1))" by (rule wf_example_queue)
  have e: "events (flush_and_catch (always_raise ConnectionError) (example_queue 1)) =
     [Posted ''/tasks/1/update'' ''log'' (Inl ConnectionError), Slept 5] \<and>
   db (flush_and_catch (always_raise ConnectionError) (example_queue 1)) = db (example_queue 1)"
    by (simp add: flush_and_catch_def flush_def underscore_queue_def sql_select_ordered_def
      example_queue_def new_TaskUpdateQueue_def numbered_rows_1 flush_loop_fail post_fails_def
      always_raise_def error_of_def asyncio_sleep_def BACKOFF_TIME_def)
  show ?thesis
    by (rule conjI [OF h conjI [OF failed_post_stops_pass_and_backs_off [OF h] e]])
qed

text \<open>
  Claim C4 as stated fails: the Manager answers 304, a status that is neither 2xx nor 409,
  to every POST. The pass does not stop at the first row: both rows are POSTed and removed,
  and there is no sleep.
\<close>

theorem not_modified_counterexample:
  "db (example_queue 2) =
     [(1, ''/tasks/1/update'', Pickled ''log''), (2, ''/tasks/1/update'', Pickled ''log'')] \<and>
   events (flush_and_catch (always_respond 304) (example_queue 2)) =
     [Posted ''/tasks/1/update'' ''log'' (Inr (Response 304 [])),
      Posted ''/tasks/1/update'' ''log'' (Inr (Response 304 []))] \<and>
   db (flush_and_catch (always_respond 304) (example_queue 2)) = []"
proof -
  have ok: "\<not> post_fails (Inr (Response 304 []))" by (simp add: post_fails_def)
  from flush_always_respond_example [OF ok, of 2]
  have "events (flush_and_catch (always_respond 304) (example_queue 2)) =
     [Posted ''/tasks/1/update'' ''log'' (Inr (Response 304 [])),
      Posted ''/tasks/1/update'' ''log'' (Inr (Response 304 []))] \<and>
   db (flush_and_catch (always_respond 304) (example_queue 2)) = []"
    by (simp add: flush_and_catch_eq numeral_2_eq_2)
  then show ?thesis by (simp add: db_example_queue numbered_rows_2)
qed

subsection \<open>What a pass returns and what it does to the event\<close>

text \<open>
  Claim C5, as amended. \<^verbatim>\<open>flush\<close> returns True exactly when the table held no row when the
  pass started. When it held a row, the pass returns False, also when it delivered every
  row, or it raises the error of a failed POST, and then a row is still in the table.
\<close>

theorem flush_returns_empty_before:
  assumes "wf_db (db st)"
  shows "(fst (flush P st) = Inr True) = (db st = []) \<and>
         (case fst (flush P st) of
            Inr b \<Rightarrow> b = (db st = [])
          | Inl e \<Rightarrow> db st \<noteq> [] \<and> db (snd (flush P st)) \<noteq> [])"
proof (cases "fst (flush P st)")
  case (Inl e)
  with flush_flags [of P st] flush_raised_rows_left [OF assms Inl] show ?thesis by simp
next
  case (Inr b)
  with flush_flags [of P st] show ?thesis by auto
qed

text \<open>
  One row and a Manager that accepts it: the pass delivers the row, empties the table and
  returns False.
\<close>

theorem flush_returns_empty_before_witness:
  "wf_db (db (example_queue 1)) \<and>
   ((fst (flush (always_respond 200) (example_queue 1)) = Inr True) = (db (example_queue 1) = []) \<and>
    (case fst (flush (always_respond 200) (example_queue 1)) of
       Inr b \<Rightarrow> b = (db (example_queue 1) = [])
     | Inl e \<Rightarrow> db (example_queue 1) \<noteq> [] \<and>
         db (snd (flush (always_respond 200) (example_queue 1))) \<noteq> [])) \<and>
   fst (flush (always_respond 200) (example_queue 1)) = Inr False \<and>
   db (snd (flush (always_respond 200) (example_queue 1))) = []"
proof -
  have h: "wf_db (db (example_queue 1))"
    by (simp add: db_example_queue wf_numbered_rows)
  have e: "fst (flush (always_respond 200) (example_queue 1)) = Inr False \<and>
     db (snd (flush (always_respond 200) (example_queue 1))) = []"
    by (simp add: flush_def underscore_queue_def sql_select_ordered_def example_queue_def
      new_TaskUpdateQueue_def numbered_rows_1 flush_loop_ok post_fails_def always_respond_def
      sql_delete_def)
  show ?thesis by (rule conjI [OF h conjI [OF flush_returns_empty_before [OF h] e]])
qed

text \<open>
  Claim C5 as stated fails: with one row queued and a Manager that cannot be reached, the
  pass does not return False, it raises \<^verbatim>\<open>ConnectionError\<close>.
\<close>

theorem flush_returns_counterexample:
  "length (db (example_queue 1)) = 1 \<and>
   fst (flush (always_raise ConnectionError) (example_queue 1)) = Inl ConnectionError"
  by (simp add: flush_def underscore_queue_def sql_select_ordered_def example_queue_def
      new_TaskUpdateQueue_def numbered_rows_1 flush_loop_fail post_fails_def always_raise_def
      error_of_def)

text \<open>
  Claim C6, as amended. After a pass the event \<^verbatim>\<open>_stuff_queued\<close> is cleared exactly when the
  table held no row when the pass started. A pass that found a row leaves the event as it
  was, whether it delivered every row, stopped at the cap or raised.
\<close>

theorem stuff_queued_cleared_iff_empty_before:
  "stuff_queued (snd (flush P st)) = (if db st = [] then False else stuff_queued st)"
  using flush_flags [of P st] by simp

text \<open>A queue with no row and with the event set: the pass clears the event.\<close>

theorem stuff_queued_cleared_witness:
  "stuff_queued (example_queue 0) \<and> db (example_queue 0) = [] \<and>
   stuff_queued (snd (flush (always_respond 200) (example_queue 0))) = False"
proof -
  have h: "stuff_queued (example_queue 0) \<and> db (example_queue 0) = []"
    by (simp add: example_queue_def new_TaskUpdateQueue_def numbered_rows_0)
  then have "(if db (example_queue 0) = [] then False else stuff_queued (example_queue 0)) = False"
    by simp
  with stuff_queued_cleared_iff_empty_before [of "always_respond 200" "example_queue 0"]
  have "stuff_queued (snd (flush (always_respond 200) (example_queue 0))) = False"
    by (rule trans)
  with h show ?thesis by simp
qed

text \<open>
  Claim C6 as stated fails: one row is queued, the Manager accepts it, the pass drains the
  queue fully (the table is empty afterwards), and the event is still set.
\<close>

theorem stuff_queued_counterexample:
  "db (snd (flush (always_respond 200) (example_queue 1))) = [] \<and>
   stuff_queued (snd (flush (always_respond 200) (example_queue 1)))"
  by (simp add: flush_def underscore_queue_def sql_select_ordered_def example_queue_def
      new_TaskUpdateQueue_def numbered_rows_1 flush_loop_ok post_fails_def always_respond_def
      sql_delete_def)

subsection \<open>A pass over an empty table\<close>

text \<open>
  Claim C10. When the table holds no row on entry, \<^verbatim>\<open>flush\<close> returns True and the queue
  object is as before but for the cleared event: no POST was made (the trace and the
  Manager's state are unchanged) and no row was deleted.
\<close>

theorem flush_empty_store:
  "db st = [] \<Longrightarrow> flush P st = (Inr True, st\<lparr>stuff_queued := False\<rparr>)"
  by (simp add: flush_def underscore_queue_def sql_select_ordered_def)

theorem flush_empty_store_witness:
  "db (example_queue 0) = [] \<and>
   flush (always_respond 500) (example_queue 0) = (Inr True, (example_queue 0)\<lparr>stuff_queued := False\<rparr>)"
proof -
  have h: "db (example_queue 0) = []"
    by (simp add: example_queue_def new_TaskUpdateQueue_def numbered_rows_0)
  show ?thesis by (rule conjI [OF h flush_empty_store [OF h]])
qed

subsection \<open>The cap of a pass\<close>

text \<open>No pass makes more than 1001 POSTs, whatever the table and the Manager.\<close>

lemma flush_loop_posts_at_most:
  "h \<le> 1000 \<Longrightarrow> flush_loop P rows q h st = (res, st') \<Longrightarrow>
   length (events st') \<le> length (events st) + (1001 - h)"
proof (induction rows arbitrary: st q h)
  case Nil
  then show ?case by auto
next
  case (Cons r rs)
  obtain rowid url payload where r: "r = (rowid, url, payload)" by (cases r) auto
  show ?case
  proof (cases "post_fails (fst (P (manager st) url payload))")
    case True
    with Cons.prems r show ?thesis by (auto simp: flush_loop_fail)
  next
    case False
    show ?thesis
    proof (cases "1000 < h + 1")
      case True
      with False Cons.prems r show ?thesis by (auto simp: flush_loop_ok Let_def)
    next
      case h: False
      then have h1: "h + 1 \<le> 1000" by simp
      from h False Cons.prems r have
        "flush_loop P rs False (h + 1) (st\<lparr>manager := snd (P (manager st) url payload),
            events := events st @ [Posted url payload (fst (P (manager st) url payload))],
            db := sql_delete rowid (db st)\<rparr>) = (res, st')"
        by (simp add: flush_loop_ok Let_def)
      from Cons.IH [OF h1 this] h1 show ?thesis by simp
    qed
  qed
qed

lemma flush_posts_at_most_1001:
  "length (events (snd (flush P st))) \<le> length (events st) + 1001"
proof -
  obtain lres st1 where loop: "flush_loop P (underscore_queue st) True 0 st = (lres, st1)"
    by (cases "flush_loop P (underscore_queue st) True 0 st") auto
  from flush_loop_posts_at_most [OF _ loop] have "length (events st1) \<le> length (events st) + 1001"
    by simp
  with loop show ?thesis
    by (cases lres) (auto simp: flush_def)
qed

text \<open>
  Claim C7. The claim is that a pass handles at most 1000 items. The loop increments
  \<^verbatim>\<open>handled\<close> and then breaks when \<^verbatim>\<open>handled > 1000\<close>, so it breaks after the 1001st item: with
  1002 rows queued and a Manager that accepts every POST, the pass makes 1001 POSTs, removes
  1001 rows and leaves row 1002.
\<close>

theorem flush_handles_1001_items:
  "length (db (example_queue 1002)) = 1002 \<and>
   fst (flush (always_respond 200) (example_queue 1002)) = Inr False \<and>
   events (snd (flush (always_respond 200) (example_queue 1002))) =
     replicate 1001 (Posted ''/tasks/1/update'' ''log'' (Inr (Response 200 []))) \<and>
   db (snd (flush (always_respond 200) (example_queue 1002))) =
     [(1002, ''/tasks/1/update'', Pickled ''log'')]"
proof -
  have ok: "\<not> post_fails (Inr (Response 200 []))" by (simp add: post_fails_def)
  have "[Suc (min 1002 1001)..<Suc 1002] = [1002]" by simp
  with flush_always_respond_example [OF ok, of 1002] show ?thesis
    by (simp add: db_example_queue length_numbered_rows del: upt_Suc)
qed

section \<open>Properties of the may-I-run poller\<close>

text \<open>
  Claim C8. When the response has \<^verbatim>\<open>may_keep_running\<close> false and a \<^verbatim>\<open>status_requested\<close> field,
  \<^verbatim>\<open>may_i_run\<close> returns False and its only call on the worker is \<^verbatim>\<open>change_status\<close> with the
  requested status, code point for code point.
\<close>

theorem may_i_run_go_asleep:
  "\<not> may_keep_running (get (''/may-i-run/'' @ task_id)) \<Longrightarrow>
   status_requested (get (''/may-i-run/'' @ task_id)) = Some s \<Longrightarrow>
   may_i_run get task_id = (False, [change_status s])"
  by (simp add: may_i_run_def)

text \<open>
  The scenario of \<^verbatim>\<open>test_go_asleep\<close>: the requested status has six Cyrillic letters.
\<close>

theorem may_i_run_go_asleep_witness:
  "\<not> may_keep_running (mocked_get switching (''/may-i-run/'' @ ''1234'')) \<and>
   status_requested (mocked_get switching (''/may-i-run/'' @ ''1234'')) =
     Some [1057, 1077, 1088, 1075, 1077, 1081] \<and>
   may_i_run (mocked_get switching) ''1234'' =
     (False, [change_status [1057, 1077, 1088, 1075, 1077, 1081]])"
proof -
  have a: "\<not> may_keep_running (mocked_get switching (''/may-i-run/'' @ ''1234''))"
    by (simp add: mocked_get_def switching_def)
  have b: "status_requested (mocked_get switching (''/may-i-run/'' @ ''1234'')) =
     Some [1057, 1077, 1088, 1075, 1077, 1081]"
    by (simp add: mocked_get_def switching_def sergey_def)
  show ?thesis
    by (rule conjI [OF a conjI [OF b
      may_i_run_go_asleep [of "mocked_get switching" "''1234''", OF a b]]])
qed

section \<open>Properties of the render-audio command\<close>

declare decimal.simps [simp del]

lemma decimal_1: "decimal (Suc 0) = ''1''"
  by (subst decimal.simps) simp

lemma decimal_47: "decimal 47 = ''47''"
  by (simp add: decimal.simps [of 47] decimal.simps [of 4])

text \<open>
  Claim C9. For the settings of the scenario the runner spawns the argv of the claim: the
  three words of \<^verbatim>\<open>blender_cmd\<close>, the fixed flags, the blend file, the exit code 47 and the script
  that sets the frame range 1 to 47, mixes down to \<^verbatim>\<open>/tmp/output.flac\<close> and quits, with stdin
  \<^verbatim>\<open>DEVNULL\<close>, stdout a pipe and stderr sent to stdout.
\<close>

theorem render_audio_cli_args:
  "render_audio_exec scenario_settings =
     Some \<lparr>argv = [''/usr/bin/blender'', ''--with'', ''--cli=args for CLI'', ''--enable-autoexec'',
                    ''-noaudio'', ''--background'', ''/x/f.blend'', ''--python-exit-code'', ''47'',
                    ''--python-expr'',
                    ''import bpy'' @ [CHR 0x0A] @
                    ''bpy.context.scene.frame_start = 1'' @ [CHR 0x0A] @
                    ''bpy.context.scene.frame_end = 47'' @ [CHR 0x0A] @
                    ''bpy.ops.sound.mixdown(filepath='' @ [CHR 0x27] @ ''/tmp/output.flac'' @ [CHR 0x27] @
                    '', codec='' @ [CHR 0x27] @ ''FLAC'' @ [CHR 0x27] @
                    '', container='' @ [CHR 0x27] @ ''FLAC'' @ [CHR 0x27] @ '', accuracy=128)'' @ [CHR 0x0A] @
                    ''bpy.ops.wm.quit_blender()''],
           stdin = DEVNULL, stdout = PIPE, stderr = STDOUT\<rparr>"
  by (simp add: render_audio_exec_def scenario_settings_def shlex_split_def audio_script_def
      str_of_int_def repr_str_def decimal_1 decimal_47)

end
